theory Spec2Isabelle
  imports Main
begin

section \<open>JavaScript values\<close>

text \<open>
  The values the library handles. Numbers are the integers plus the one value \<open>NaN\<close>,
  which is all the code distinguishes (\<open>!==\<close>, \<open>Number.isNaN\<close>, truthiness).
  Objects live in a heap and are named by their address: \<open>VRef a\<close>. A DOM element is
  named by its identity: \<open>VElement el\<close>.
\<close>

datatype val =
  VUndefined | VNull | VBool bool | VNum int | VNaN | VStr string | VRef nat | VElement nat

text \<open>A scope object: variable name to value. \<open>{ ...a, ...b }\<close> is \<open>a ++ b\<close>.\<close>

type_synonym scope = "string \<rightharpoonup> val"

text \<open>A thrown value. JavaScript can throw any value.\<close>

type_synonym exn = val


text \<open>\<open>a === b\<close>: equal values, except that \<open>NaN\<close> is not equal to itself.\<close>

definition strict_eq :: "val \<Rightarrow> val \<Rightarrow> bool" where
  "strict_eq a b = (a = b \<and> a \<noteq> VNaN)"

text \<open>
  A string built from an attribute value: \<open>getAttribute\<close> returns \<open>null\<close> for a missing
  attribute, and \<open>'get:' + null\<close> is \<open>'get:null'\<close>.
\<close>

fun attr_text :: "string option \<Rightarrow> string" where
  "attr_text None = ''null''"
| "attr_text (Some s) = s"

section \<open>The expression evaluator \<open>js\<close>\<close>

text \<open>
  \<open>new Function(params, body)\<close> is the host's compiler: it either throws (a syntax error)
  or yields a function. A compiled function is called with \<open>this\<close>, the scope and (for
  \<open>set\<close>) the value; it reads and writes the world \<open>'w\<close> (the reactive state and whatever
  else the snippet can reach) and either throws or returns.
\<close>

type_synonym 'w jsfun = "val \<Rightarrow> scope \<Rightarrow> val \<Rightarrow> 'w \<Rightarrow> (exn + val) \<times> 'w"

type_synonym 'w compiler = "string list \<Rightarrow> string \<Rightarrow> exn + 'w jsfun"

datatype console_entry =
    ConsoleError exn string string
  | ConsoleWarn string
  | ConsoleDebug string

record 'w js_env =
  cache :: "string \<rightharpoonup> 'w jsfun"
  console :: "console_entry list"
  world :: "'w"

text \<open>
  The body of the three \<open>try\<close> blocks: look the compiled function up under its cache key,
  compile and store it when it is missing, then call it. An exception of the compiler or
  of the call leaves the block at once, with the environment as it is at that moment.
\<close>

definition try_cached ::
  "'w compiler \<Rightarrow> string \<Rightarrow> string list \<Rightarrow> string \<Rightarrow> val \<Rightarrow> scope \<Rightarrow> val \<Rightarrow> 'w js_env
     \<Rightarrow> (exn + val) \<times> 'w js_env" where
  "try_cached compile cache_key params body this sc value env =
     (case (case cache env cache_key of
              Some f \<Rightarrow> Inr (f, env)
            | None \<Rightarrow>
                (case compile params body of
                   Inl e \<Rightarrow> Inl e
                 | Inr f \<Rightarrow> Inr (f, env\<lparr>cache := (cache env)(cache_key \<mapsto> f)\<rparr>))) of
        Inl e \<Rightarrow> (Inl e, env)
      | Inr (f, env1) \<Rightarrow>
          (case f this sc value (world env1) of
             (r, w) \<Rightarrow> (r, env1\<lparr>world := w\<rparr>)))"

definition get_body :: "string \<Rightarrow> string" where
  "get_body expr = ''with(state){ with(scope){ return ('' @ expr @ '') } }''"

definition set_body :: "string \<Rightarrow> string" where
  "set_body expr = ''with(state) { with(scope){ '' @ expr @ '' = value } }''"

definition exec_body :: "string \<Rightarrow> string" where
  "exec_body expr = ''with(state){ with(scope){ '' @ expr @ '' } }''"

definition log_error :: "exn \<Rightarrow> string \<Rightarrow> string \<Rightarrow> 'w js_env \<Rightarrow> 'w js_env" where
  "log_error e what expr env = env\<lparr>console := console env @ [ConsoleError e what expr]\<rparr>"

text \<open>\<open>js.get\<close>: the \<open>catch\<close> logs and throws the exception again.\<close>

definition js_get ::
  "'w compiler \<Rightarrow> string \<Rightarrow> scope \<Rightarrow> val \<Rightarrow> 'w js_env \<Rightarrow> (exn + val) \<times> 'w js_env" where
  "js_get compile expr sc this env =
     (case try_cached compile (''get:'' @ expr) [''state'', ''scope''] (get_body expr)
             this sc VUndefined env of
        (Inr v, env') \<Rightarrow> (Inr v, env')
      | (Inl e, env') \<Rightarrow> (Inl e, log_error e ''js.get()'' expr env'))"

text \<open>\<open>js.set\<close>: the \<open>catch\<close> logs and falls through; the function returns \<open>undefined\<close>.\<close>

definition js_set ::
  "'w compiler \<Rightarrow> string \<Rightarrow> val \<Rightarrow> scope \<Rightarrow> val \<Rightarrow> 'w js_env \<Rightarrow> (exn + val) \<times> 'w js_env" where
  "js_set compile expr value sc this env =
     (case try_cached compile (''set:'' @ expr) [''state'', ''scope'', ''value''] (set_body expr)
             this sc value env of
        (Inr v, env') \<Rightarrow> (Inr VUndefined, env')
      | (Inl e, env') \<Rightarrow> (Inr VUndefined, log_error e ''js.set()'' expr env'))"

text \<open>\<open>js.exec\<close>: as \<open>js.set\<close>.\<close>

definition js_exec ::
  "'w compiler \<Rightarrow> string \<Rightarrow> scope \<Rightarrow> val \<Rightarrow> 'w js_env \<Rightarrow> (exn + val) \<times> 'w js_env" where
  "js_exec compile expr sc this env =
     (case try_cached compile (''exec:'' @ expr) [''state'', ''scope''] (exec_body expr)
             this sc VUndefined env of
        (Inr v, env') \<Rightarrow> (Inr VUndefined, env')
      | (Inl e, env') \<Rightarrow> (Inr VUndefined, log_error e ''js.exec()'' expr env'))"

section \<open>The DOM tree\<close>

text \<open>
  An element is named by its identity (a number); the tree gives each element its element
  children in document order. \<open>ids\<close> lists a subtree in document order (pre-order).
\<close>

datatype dom = Node nat "dom list"

fun ids :: "dom \<Rightarrow> nat list" where
  "ids (Node i ks) = i # concat (map ids ks)"

text \<open>The subtree below the element \<open>el\<close>, when \<open>el\<close> is in the tree.\<close>

fun subtree :: "dom \<Rightarrow> nat \<Rightarrow> dom option" where
  "subtree (Node i ks) el =
     (if i = el then Some (Node i ks)
      else (case filter (\<lambda>r. r \<noteq> None) (map (\<lambda>k. subtree k el) ks) of
              [] \<Rightarrow> None
            | r # _ \<Rightarrow> r))"

text \<open>
  The chain \<open>el, el.parentElement, el.parentElement.parentElement, ...\<close> up to the top
  of the tree; empty when \<open>el\<close> is not in the tree.
\<close>

fun ancestry :: "dom \<Rightarrow> nat \<Rightarrow> nat list" where
  "ancestry (Node i ks) el =
     (if i = el then [i]
      else (case filter (\<lambda>c. c \<noteq> []) (map (\<lambda>k. ancestry k el) ks) of
              [] \<Rightarrow> []
            | c # _ \<Rightarrow> c @ [i]))"

text \<open>An element outside the tree has no parent: its chain is itself.\<close>

definition parent_chain :: "dom \<Rightarrow> nat \<Rightarrow> nat list" where
  "parent_chain doc el = (case ancestry doc el of [] \<Rightarrow> [el] | c \<Rightarrow> c)"

text \<open>\<open>a.contains(b)\<close>: \<open>b\<close> is \<open>a\<close> or a descendant of \<open>a\<close>.\<close>

definition contains :: "dom \<Rightarrow> nat \<Rightarrow> nat \<Rightarrow> bool" where
  "contains doc a b =
     (case subtree doc a of None \<Rightarrow> a = b | Some n \<Rightarrow> b \<in> set (ids n))"


section \<open>Directives of an element (\<open>processElement\<close>)\<close>

text \<open>\<open>s.startsWith(pre)\<close>\<close>

definition startsWith :: "string \<Rightarrow> string \<Rightarrow> bool" where
  "startsWith s pre = (take (length pre) s = pre)"

text \<open>
  \<open>Array.prototype.sort(cmp)\<close>: a stable sort in which \<open>a\<close> goes after \<open>b\<close> when
  \<open>cmp a b > 0\<close>. For a comparator that orders by a key, as the one below does, the
  result is fixed by stability, and insertion from the right computes it.
\<close>

fun sort_insert :: "('a \<Rightarrow> 'a \<Rightarrow> int) \<Rightarrow> 'a \<Rightarrow> 'a list \<Rightarrow> 'a list" where
  "sort_insert cmp x [] = [x]"
| "sort_insert cmp x (y # ys) =
     (if cmp x y > 0 then y # sort_insert cmp x ys else x # y # ys)"

definition array_sort :: "('a \<Rightarrow> 'a \<Rightarrow> int) \<Rightarrow> 'a list \<Rightarrow> 'a list" where
  "array_sort cmp xs = foldr (sort_insert cmp) xs []"

text \<open>\<open>(a, b) => +(a === "phoebe:class") - +(b === "phoebe:class")\<close>\<close>

definition class_cmp :: "string \<Rightarrow> string \<Rightarrow> int" where
  "class_cmp a b =
     (if a = ''phoebe:class'' then 1 else 0) - (if b = ''phoebe:class'' then 1 else 0)"

text \<open>
  The attributes of an element: name and value, in declaration order
  (\<open>getAttributeNames\<close>, \<open>getAttribute\<close>).
\<close>

type_synonym attrs = "(string \<times> string) list"

definition getAttribute :: "attrs \<Rightarrow> string \<Rightarrow> string option" where
  "getAttribute as name = map_of as name"

text \<open>The names \<open>processElement\<close> walks through, in the order it walks them.\<close>

definition phoebeAttrs :: "attrs \<Rightarrow> string list" where
  "phoebeAttrs as =
     array_sort class_cmp (filter (\<lambda>attr. startsWith attr ''phoebe'') (map fst as))"

text \<open>The handler each name is dispatched to, with the arguments it gets.\<close>

datatype directive =
    HandleBinding string
  | HandleReference string
  | HandleClass string string
  | HandleEvent string string
  | HandleAttribute string string
  | UnknownAttribute string

definition dispatch :: "attrs \<Rightarrow> string \<Rightarrow> directive" where
  "dispatch as attrName =
     (let expr = attr_text (getAttribute as attrName) in
      if attrName = ''phoebe-bind'' then HandleBinding expr
      else if attrName = ''phoebe-ref'' then HandleReference expr
      else if startsWith attrName ''phoebe-class:'' then
        HandleClass (drop (length ''phoebe-class:'') attrName) expr
      else if startsWith attrName ''phoebe:on'' \<and> length attrName > length ''phoebe:on'' then
        HandleEvent (drop (length ''phoebe:on'') attrName) expr
      else if startsWith attrName ''phoebe:'' \<and> length attrName > length ''phoebe:'' then
        HandleAttribute (drop (length ''phoebe:'') attrName) expr
      else UnknownAttribute attrName)"

definition directive_calls :: "attrs \<Rightarrow> directive list" where
  "directive_calls as = map (dispatch as) (phoebeAttrs as)"

section \<open>The renderer: scheduling\<close>

text \<open>
  \<open>rerenderEls\<close> is a \<open>Set\<close>: its elements in insertion order, none twice. \<open>timeouts\<close>
  counts the timer callbacks \<open>schedule\<close> has registered with \<open>setTimeout\<close>.
\<close>

record renderer =
  rerenderEls :: "nat list"
  timeouts :: nat

text \<open>The \<open>for ... of\<close> loop of \<open>schedule\<close>, which leaves at the first pending element
  that contains \<open>el\<close>.\<close>

fun shouldAdd :: "dom \<Rightarrow> nat \<Rightarrow> nat list \<Rightarrow> bool" where
  "shouldAdd doc el [] = True"
| "shouldAdd doc el (rerenderEl # rest) =
     (if contains doc rerenderEl el then False else shouldAdd doc el rest)"

definition schedule :: "dom \<Rightarrow> nat \<Rightarrow> renderer \<Rightarrow> renderer" where
  "schedule doc el r =
     (if length (rerenderEls r) = 0 then
        r\<lparr>timeouts := timeouts r + 1, rerenderEls := rerenderEls r @ [el]\<rparr>
      else if el \<notin> set (rerenderEls r) then
        (if shouldAdd doc el (rerenderEls r) then r\<lparr>rerenderEls := rerenderEls r @ [el]\<rparr>
         else r)
      else r)"





text \<open>A debounce window: the calls of \<open>schedule\<close> between two timer callbacks, the
  pending set being empty at its start.\<close>

definition idle :: renderer where
  "idle = \<lparr>rerenderEls = [], timeouts = 0\<rparr>"



section \<open>The registry and \<open>buildScope\<close>\<close>

text \<open>
  The side table of an element. A property that was never set is \<open>undefined\<close>:
  \<open>None\<close>, \<open>False\<close> for the flag, and \<open>Unset\<close> for \<open>contextAncestors\<close>, which is
  otherwise \<open>false\<close> or the list of elements.
\<close>

datatype context_ancestors = Unset | NoContext | ContextEls "nat list"

record registry_entry =
  boundModel :: bool
  boundEvents :: "string list option"
  originalStyle :: "string option"
  originalClass :: "string option"
  loopContextValue :: "scope option"
  withContextValue :: "scope option"
  contextAncestors :: context_ancestors

definition empty_entry :: registry_entry where
  "empty_entry =
     \<lparr>boundModel = False, boundEvents = None, originalStyle = None, originalClass = None,
      loopContextValue = None, withContextValue = None, contextAncestors = Unset\<rparr>"

text \<open>\<open>registry(el)\<close> makes the empty record for an element it has not seen.\<close>

type_synonym registry = "nat \<Rightarrow> registry_entry"

definition no_entries :: registry where
  "no_entries = (\<lambda>el. empty_entry)"

text \<open>
  The \<open>while\<close> loop of \<open>buildScope\<close>, over the chain of \<open>parent\<close> values it visits: it
  stops at the end of the chain or at \<open>rootNode\<close>, and pushes every element that has a
  loop or a with context value (an object, so truthy whenever it is set).
\<close>

fun context_walk :: "registry \<Rightarrow> nat \<Rightarrow> nat list \<Rightarrow> nat list" where
  "context_walk reg rootNode [] = []"
| "context_walk reg rootNode (parent # up) =
     (if parent = rootNode then []
      else (if loopContextValue (reg parent) \<noteq> None \<or> withContextValue (reg parent) \<noteq> None
            then [parent] else [])
           @ context_walk reg rootNode up)"

text \<open>The body of the \<open>for ... of\<close> loop over the ancestors.\<close>

definition add_context :: "registry \<Rightarrow> scope \<Rightarrow> nat \<Rightarrow> scope" where
  "add_context reg sc anc =
     (let sc1 = (case loopContextValue (reg anc) of Some c \<Rightarrow> sc ++ c | None \<Rightarrow> sc)
      in (case withContextValue (reg anc) of Some c \<Rightarrow> sc1 ++ c | None \<Rightarrow> sc1))"

definition buildScope :: "dom \<Rightarrow> nat \<Rightarrow> nat \<Rightarrow> registry \<Rightarrow> scope \<times> registry" where
  "buildScope doc rootNode el reg =
     (let reg1 =
        (if contextAncestors (reg el) = Unset then
           (let loopEls = context_walk reg rootNode (parent_chain doc el)
            in reg(el := (reg el)\<lparr>contextAncestors :=
                 (if length loopEls > 0 then ContextEls loopEls else NoContext)\<rparr>))
         else reg)
      in ((case contextAncestors (reg1 el) of
             ContextEls ancestors \<Rightarrow> foldl (add_context reg1) Map.empty ancestors
           | _ \<Rightarrow> Map.empty),
          reg1))"

text \<open>What one element contributes: its loop context, then its with context on top.\<close>

definition own_context :: "registry \<Rightarrow> nat \<Rightarrow> scope" where
  "own_context reg anc = add_context reg Map.empty anc"

section \<open>The scoped-variable element \<open>phoebe-with\<close>\<close>



section \<open>The conditional element \<open>phoebe-if\<close>\<close>

text \<open>
  The child nodes of a structural element. A \<open>template\<close> carries its
  \<open>dataset.phoebeRole\<close> (empty when unset) and the nodes of its content fragment, which
  are inert; elements are named by their identity, text nodes by their text.
\<close>

datatype node = TemplateNode string "node list" | ElementNode nat | TextNode string







section \<open>The loop element \<open>phoebe-for\<close>\<close>

subsection \<open>Element children\<close>

text \<open>
  The element children of the loop element that follow its template, in document order,
  each named by its identity; a node is a child at most once. These are the nodes that
  \<open>nextElementSibling\<close>, \<open>insertBefore\<close> and \<open>remove\<close> look at in \<open>render\<close>.
\<close>

definition nextElementSibling :: "nat list \<Rightarrow> nat \<Rightarrow> nat option" where
  "nextElementSibling cs el =
     (case dropWhile (\<lambda>c. c \<noteq> el) cs of
        _ # n # _ \<Rightarrow> Some n
      | _ \<Rightarrow> None)"

text \<open>\<open>el.remove()\<close>\<close>

definition remove_child :: "nat list \<Rightarrow> nat \<Rightarrow> nat list" where
  "remove_child cs el = filter (\<lambda>c. c \<noteq> el) cs"

text \<open>
  \<open>parent.insertBefore(node, ref)\<close>, as the DOM defines it: a reference that is the node
  itself stands for the node's next sibling; the node leaves the place it had; it is put
  before the reference, or last when the reference is \<open>null\<close>. A reference that is not a
  child makes the DOM throw \<open>NotFoundError\<close>.
\<close>

definition NotFoundError :: exn where
  "NotFoundError = VStr ''NotFoundError''"

definition insert_last :: "nat list \<Rightarrow> nat \<Rightarrow> nat list" where
  "insert_last cs node = remove_child cs node @ [node]"

definition insertBefore :: "nat list \<Rightarrow> nat \<Rightarrow> nat option \<Rightarrow> exn + nat list" where
  "insertBefore cs node ref =
     (case ref of
        None \<Rightarrow> Inr (insert_last cs node)
      | Some r \<Rightarrow>
          (if r \<notin> set cs then Inl NotFoundError
           else (case (if r = node then nextElementSibling cs node else Some r) of
                   None \<Rightarrow> Inr (insert_last cs node)
                 | Some r' \<Rightarrow>
                     Inr (takeWhile (\<lambda>c. c \<noteq> r') (remove_child cs node) @ node #
                          dropWhile (\<lambda>c. c \<noteq> r') (remove_child cs node)))))"

subsection \<open>State\<close>

text \<open>
  What a render of one \<open>phoebe-for\<close> element reads and writes: whether its first child is
  the template marked \<open>for\<close>; the child nodes the author wrote (until the first render
  moves them into the template); the template's content; the element children after the
  template; the private \<open>#keyElements\<close> (a \<open>Map\<close>: its entries in insertion order, or
  \<open>undefined\<close>); the registry; the identity the next created element gets; and the
  evaluator's environment.
\<close>

record 'w for_state =
  isInitDone :: bool
  authored :: "node list"
  templateContent :: "node list"
  children :: "nat list"
  keyElements :: "(val \<times> nat) list option"
  regs :: registry
  nextEl :: nat
  jsenv :: "'w js_env"

definition console_log :: "console_entry \<Rightarrow> 'w for_state \<Rightarrow> 'w for_state" where
  "console_log entry st = st\<lparr>jsenv := (jsenv st)\<lparr>console := console (jsenv st) @ [entry]\<rparr>\<rparr>"

text \<open>\<open>registry(el).loopContextValue = ctx\<close>\<close>

definition set_loopContextValue :: "nat \<Rightarrow> scope \<Rightarrow> 'w for_state \<Rightarrow> 'w for_state" where
  "set_loopContextValue el ctx st =
     st\<lparr>regs := (regs st)(el := (regs st el)\<lparr>loopContextValue := Some ctx\<rparr>)\<rparr>"

text \<open>
  \<open>template.content.cloneNode(true)\<close> and its \<open>firstElementChild\<close>: a new element, with
  an identity no element has yet.
\<close>

definition cloneNode :: "'w for_state \<Rightarrow> nat \<times> 'w for_state" where
  "cloneNode st = (nextEl st, st\<lparr>nextEl := Suc (nextEl st)\<rparr>)"

subsection \<open>The first render\<close>

text \<open>\<open>textContent.trim() !== ""\<close>\<close>

definition is_blank :: "string \<Rightarrow> bool" where
  "is_blank s = list_all (\<lambda>c. c \<in> set [CHR '' '', CHR 0x09, CHR 0x0A, CHR 0x0B, CHR 0x0C, CHR 0x0D]) s"

fun counts_as_child :: "node \<Rightarrow> bool" where
  "counts_as_child (ElementNode e) = True"
| "counts_as_child (TemplateNode r c) = True"
| "counts_as_child (TextNode s) = (s \<noteq> [] \<and> \<not> is_blank s)"

definition hasExactlyOneChild :: "node list \<Rightarrow> bool" where
  "hasExactlyOneChild ns = (length (filter counts_as_child ns) = 1)"

text \<open>
  The first block of \<open>render\<close>. Child nodes that are not exactly one element or text are
  wrapped in a new \<open>div\<close>; then all child nodes move into the content of the new template.
\<close>

definition for_init :: "'w for_state \<Rightarrow> 'w for_state" where
  "for_init st =
     (if \<not> isInitDone st then
        (let st1 =
           (if \<not> hasExactlyOneChild (authored st) then
              (let st' = console_log
                   (ConsoleDebug ''<phoebe-for> should have exactly one child element'') st
               in st'\<lparr>authored := [ElementNode (nextEl st')], nextEl := Suc (nextEl st')\<rparr>)
            else st)
         in st1\<lparr>templateContent := authored st1, authored := [], children := [],
                isInitDone := True\<rparr>)
      else st)"

subsection \<open>The iterable\<close>

text \<open>
  What \<open>for ... of\<close> yields for a value is the host's: \<open>iterator_of v\<close> is the sequence
  of a value that has \<open>Symbol.iterator\<close>, and \<open>None\<close> for one that has not. A number
  counts from zero; \<open>NaN\<close> is a number that is not \<open>>= 0\<close>.
\<close>

definition ensure_iterable ::
  "(val \<Rightarrow> val list option) \<Rightarrow> val \<Rightarrow> 'w for_state \<Rightarrow> val list \<times> 'w for_state" where
  "ensure_iterable iterator_of iterObj st =
     (case iterObj of
        VNum n \<Rightarrow>
          (if n \<ge> 0 then (map (\<lambda>k. VNum (int k)) [0..<nat n], st)
           else ([], console_log
                  (ConsoleWarn ''<phoebe-for> attribute in cannot be a negative number'') st))
      | VNaN \<Rightarrow>
          ([], console_log
                 (ConsoleWarn ''<phoebe-for> attribute in cannot be a negative number'') st)
      | _ \<Rightarrow>
          (case (if iterObj = VNull \<or> iterObj = VUndefined then None else iterator_of iterObj) of
             None \<Rightarrow>
               ([], console_log
                      (ConsoleWarn ''<phoebe-for> attribute in expects an iterable'') st)
           | Some items \<Rightarrow> (items, st)))"

subsection \<open>The context of an item\<close>

text \<open>\<open>const ctx = {}; if (varName) ctx[varName] = item; if (indexName) ctx[indexName] = index\<close>\<close>

definition item_ctx :: "string option \<Rightarrow> string option \<Rightarrow> val \<Rightarrow> nat \<Rightarrow> scope" where
  "item_ctx varName indexName item index =
     (let ctx1 = (case varName of
                    Some n \<Rightarrow> (if n \<noteq> [] then Map.empty(n \<mapsto> item) else Map.empty)
                  | None \<Rightarrow> Map.empty)
      in (case indexName of
            Some n \<Rightarrow> (if n \<noteq> [] then ctx1(n \<mapsto> VNum (int index)) else ctx1)
          | None \<Rightarrow> ctx1))"

subsection \<open>The loop without keys\<close>

text \<open>
  The \<open>for ... of\<close> loop of the unkeyed branch, from the item with index \<open>index\<close> on,
  with \<open>currentEl\<close> as it stands. It returns the last \<open>currentEl\<close>.
\<close>

fun unkeyed_loop ::
  "string option \<Rightarrow> string option \<Rightarrow> val list \<Rightarrow> nat \<Rightarrow> nat option \<Rightarrow> 'w for_state
     \<Rightarrow> nat option \<times> 'w for_state" where
  "unkeyed_loop varName indexName [] index currentEl st = (currentEl, st)"
| "unkeyed_loop varName indexName (item # rest) index currentEl st =
     (let ctx = item_ctx varName indexName item index in
      case currentEl of
        None \<Rightarrow>
          (case cloneNode st of
             (newEl, st1) \<Rightarrow>
               unkeyed_loop varName indexName rest (index + 1) None
                 (set_loopContextValue newEl ctx
                    (st1\<lparr>children := insert_last (children st1) newEl\<rparr>)))
      | Some existingEl \<Rightarrow>
          unkeyed_loop varName indexName rest (index + 1)
            (nextElementSibling (children st) existingEl)
            (set_loopContextValue existingEl ctx st))"

text \<open>
  The \<open>while (currentEl)\<close> loop that removes the old items. An element that is not a
  child has no sibling and nothing to leave, which ends the loop.
\<close>

function prune_loop :: "nat option \<Rightarrow> nat list \<Rightarrow> nat list" where
  "prune_loop None cs = cs"
| "prune_loop (Some currentEl) cs =
     (if currentEl \<in> set cs then
        prune_loop (nextElementSibling cs currentEl) (remove_child cs currentEl)
      else cs)"
  by pat_completeness auto
termination
  by (relation "measure (\<lambda>(currentEl, cs). length cs)")
     (auto simp: remove_child_def intro: length_filter_less)

text \<open>\<open>template.nextElementSibling\<close>\<close>

definition first_child :: "nat list \<Rightarrow> nat option" where
  "first_child cs = (case cs of [] \<Rightarrow> None | first # _ \<Rightarrow> Some first)"

definition render_unkeyed ::
  "string option \<Rightarrow> string option \<Rightarrow> val list \<Rightarrow> 'w for_state \<Rightarrow> 'w for_state" where
  "render_unkeyed varName indexName items st =
     (case unkeyed_loop varName indexName items 0 (first_child (children st)) st of
        (currentEl, st1) \<Rightarrow> st1\<lparr>children := prune_loop currentEl (children st1)\<rparr>)"

subsection \<open>The loop with keys\<close>

text \<open>\<open>typeof key === 'string' || typeof key === 'number'\<close>\<close>

fun is_string_or_number :: "val \<Rightarrow> bool" where
  "is_string_or_number (VStr s) = True"
| "is_string_or_number (VNum n) = True"
| "is_string_or_number VNaN = True"
| "is_string_or_number v = False"

text \<open>The entries of \<open>#keyElements\<close>.\<close>

definition key_entries :: "'w for_state \<Rightarrow> (val \<times> nat) list" where
  "key_entries st = (case keyElements st of None \<Rightarrow> [] | Some m \<Rightarrow> m)"

text \<open>The two warnings about a key: not a string or number (or \<open>NaN\<close>), or met before.\<close>

definition warn_key :: "val \<Rightarrow> val list \<Rightarrow> 'w for_state \<Rightarrow> 'w for_state" where
  "warn_key key visitedKeys st =
     (if \<not> is_string_or_number key \<or> key = VNaN then
        console_log (ConsoleWarn
          ''the key for a <phoebe-for> loop should be a unique string or number'') st
      else if key \<in> set visitedKeys then
        console_log (ConsoleWarn ''found duplicated key for <phoebe-for> loop'') st
      else st)"

text \<open>
  The block \<open>if (this.#keyElements.has(key)) { ... } else { ... }\<close>: the element of a
  known key is moved unless it is \<open>currentEl\<close>; for a new key an element is created,
  indexed and inserted. Either gets the context, and \<open>currentEl\<close> becomes its next
  sibling. The reference handed to \<open>insertBefore\<close> is the next sibling of \<open>currentEl\<close>.
  The result is the new \<open>currentEl\<close>, or the exception of \<open>insertBefore\<close>.
\<close>

definition place_item ::
  "val \<Rightarrow> scope \<Rightarrow> nat option \<Rightarrow> 'w for_state \<Rightarrow> (exn + nat option) \<times> 'w for_state" where
  "place_item key ctx currentEl st =
     (let ref = (case currentEl of
                   None \<Rightarrow> None
                 | Some c \<Rightarrow> nextElementSibling (children st) c)
      in case map_of (key_entries st) key of
           Some keyEl \<Rightarrow>
             (case (if currentEl = None \<or> Some keyEl \<noteq> currentEl
                    then insertBefore (children st) keyEl ref
                    else Inr (children st)) of
                Inl e \<Rightarrow> (Inl e, st)
              | Inr cs \<Rightarrow>
                  (Inr (nextElementSibling cs keyEl),
                   set_loopContextValue keyEl ctx (st\<lparr>children := cs\<rparr>)))
         | None \<Rightarrow>
             (case cloneNode st of
                (newEl, st1) \<Rightarrow>
                  (let st2 = st1\<lparr>keyElements := Some (key_entries st1 @ [(key, newEl)])\<rparr>
                   in case insertBefore (children st2) newEl ref of
                        Inl e \<Rightarrow> (Inl e, st2)
                      | Inr cs \<Rightarrow>
                          (Inr (nextElementSibling cs newEl),
                           set_loopContextValue newEl ctx (st2\<lparr>children := cs\<rparr>)))))"

text \<open>
  The \<open>for ... of\<close> loop of the keyed branch, from the item with index \<open>index\<close> on, with
  \<open>currentEl\<close> and \<open>visitedKeys\<close> as they stand. An exception of \<open>js.get\<close> or of
  \<open>insertBefore\<close> leaves the loop, and \<open>render\<close>, at once. The loop returns
  \<open>visitedKeys\<close>.
\<close>

fun keyed_loop ::
  "'w compiler \<Rightarrow> string \<Rightarrow> string option \<Rightarrow> string option \<Rightarrow> scope \<Rightarrow> nat \<Rightarrow>
     val list \<Rightarrow> nat \<Rightarrow> nat option \<Rightarrow> val list \<Rightarrow> 'w for_state
     \<Rightarrow> (exn + val list) \<times> 'w for_state" where
  "keyed_loop compile keyExpr varName indexName sc this [] index currentEl visitedKeys st =
     (Inr visitedKeys, st)"
| "keyed_loop compile keyExpr varName indexName sc this (item # rest) index currentEl
     visitedKeys st =
     (let ctx = item_ctx varName indexName item index in
      case js_get compile keyExpr (sc ++ ctx) (VElement this) (jsenv st) of
        (Inl e, env') \<Rightarrow> (Inl e, st\<lparr>jsenv := env'\<rparr>)
      | (Inr key, env') \<Rightarrow>
          (case place_item key ctx currentEl (warn_key key visitedKeys (st\<lparr>jsenv := env'\<rparr>)) of
             (Inl e, st1) \<Rightarrow> (Inl e, st1)
           | (Inr currentEl', st1) \<Rightarrow>
               keyed_loop compile keyExpr varName indexName sc this rest (index + 1) currentEl'
                 (if key \<in> set visitedKeys then visitedKeys else visitedKeys @ [key]) st1))"

text \<open>
  The loop that removes the old items: over the entries of \<open>#keyElements\<close> as they stand
  when it starts (it deletes only the entry it is at).
\<close>

fun prune_keyed :: "val list \<Rightarrow> (val \<times> nat) list \<Rightarrow> 'w for_state \<Rightarrow> 'w for_state" where
  "prune_keyed visitedKeys [] st = st"
| "prune_keyed visitedKeys ((key, el) # rest) st =
     prune_keyed visitedKeys rest
       (if key \<notin> set visitedKeys then
          st\<lparr>children := remove_child (children st) el,
             keyElements := Some (filter (\<lambda>(k, e). k \<noteq> key) (key_entries st))\<rparr>
        else st)"

definition render_keyed ::
  "'w compiler \<Rightarrow> attrs \<Rightarrow> scope \<Rightarrow> nat \<Rightarrow> val list \<Rightarrow> 'w for_state
     \<Rightarrow> (exn + unit) \<times> 'w for_state" where
  "render_keyed compile as sc this items st =
     (let st1 = (if keyElements st = None then st\<lparr>keyElements := Some []\<rparr> else st) in
      case keyed_loop compile (attr_text (getAttribute as ''key'')) (getAttribute as ''var'')
             (getAttribute as ''index'') sc this items 0 (first_child (children st1)) [] st1 of
        (Inl e, st2) \<Rightarrow> (Inl e, st2)
      | (Inr visitedKeys, st2) \<Rightarrow> (Inr (), prune_keyed visitedKeys (key_entries st2) st2))"

subsection \<open>\<open>PhoebeFor.render\<close>\<close>

definition PhoebeFor_render ::
  "'w compiler \<Rightarrow> (val \<Rightarrow> val list option) \<Rightarrow> attrs \<Rightarrow> nat \<Rightarrow> scope \<Rightarrow> 'w for_state
     \<Rightarrow> (exn + unit) \<times> 'w for_state" where
  "PhoebeFor_render compile iterator_of as this sc st =
     (let st1 = for_init st in
      case js_get compile (attr_text (getAttribute as ''in'')) sc (VElement this) (jsenv st1) of
        (Inl e, env') \<Rightarrow> (Inl e, st1\<lparr>jsenv := env'\<rparr>)
      | (Inr iterObj, env') \<Rightarrow>
          (case ensure_iterable iterator_of iterObj (st1\<lparr>jsenv := env'\<rparr>) of
             (items, st2) \<Rightarrow>
               (if getAttribute as ''key'' \<noteq> None then render_keyed compile as sc this items st2
                else (Inr (),
                      render_unkeyed (getAttribute as ''var'') (getAttribute as ''index'')
                        items st2))))"

subsection \<open>What the loops establish\<close>


section \<open>The reactive state\<close>

text \<open>
  The heap of objects. An ordinary object has a class, which is all \<open>wrap\<close> asks about
  (\<open>typeof\<close> is \<open>'object'\<close> for all but functions; \<open>instanceof Date\<close>, \<open>instanceof
  RegExp\<close>), and its own properties. A proxy has its target; the handler of every proxy
  here is the one \<open>wrap\<close> builds. Addresses are handed out in increasing order, so a
  proxy is younger than its target.
\<close>

datatype object_class = PlainObject | DateObject | RegExpObject | FunctionObject

datatype heap_obj = Obj object_class "string \<rightharpoonup> val" | ProxyObj nat

text \<open>
  The state of the closure \<open>state\<close>, with what it reaches: the heap, the \<open>WeakMap\<close> from
  targets to their proxies, the next free address, and the renderer's pending set.
\<close>

record reactive =
  heap :: "nat \<rightharpoonup> heap_obj"
  proxies :: "nat \<rightharpoonup> nat"
  next_addr :: nat
  sched :: renderer

text \<open>
  The first test of \<open>wrap\<close> at an object: \<open>typeof target === 'object'\<close> and neither a
  \<open>Date\<close> nor a \<open>RegExp\<close>. A proxy answers both as its target does.
\<close>

function is_object :: "(nat \<rightharpoonup> heap_obj) \<Rightarrow> nat \<Rightarrow> bool" where
  "is_object h a =
     (case h a of
        None \<Rightarrow> False
      | Some (Obj c props) \<Rightarrow> c = PlainObject
      | Some (ProxyObj t) \<Rightarrow> (if t < a then is_object h t else False))"
  by pat_completeness auto
termination
  by (relation "measure (\<lambda>(h, a). a)") auto

text \<open>
  \<open>wrap\<close>: falsy values, values that are not objects, elements, dates and regular
  expressions come back as they are; an object whose proxy is in the cache gets that
  proxy; any other object gets a new proxy, which is put into the cache.
\<close>

definition wrap :: "val \<Rightarrow> reactive \<Rightarrow> val \<times> reactive" where
  "wrap target st =
     (case target of
        VRef a \<Rightarrow>
          (if \<not> is_object (heap st) a then (target, st)
           else (case proxies st a of
                   Some proxy \<Rightarrow> (VRef proxy, st)
                 | None \<Rightarrow>
                     (VRef (next_addr st),
                      st\<lparr>heap := (heap st)(next_addr st \<mapsto> ProxyObj a),
                         proxies := (proxies st)(a \<mapsto> next_addr st),
                         next_addr := Suc (next_addr st)\<rparr>)))
      | _ \<Rightarrow> (target, st))"

text \<open>
  \<open>o[key]\<close> and \<open>Reflect.get(o, key)\<close> for the object at address \<open>a\<close>. At a proxy this
  is the \<open>get\<close> trap: the target's value, wrapped. The test \<open>target < a\<close>, here and
  below, is what lets the recursion through nested proxies end; it holds of every proxy
  in a heap the program builds (\<open>heap_ok\<close> below), where the other branch is never taken.
  Properties are ordinary data properties: no accessors, no prototype chain.
\<close>

function obj_get :: "nat \<Rightarrow> string \<Rightarrow> reactive \<Rightarrow> val \<times> reactive" where
  "obj_get a key st =
     (case heap st a of
        None \<Rightarrow> (VUndefined, st)
      | Some (Obj c props) \<Rightarrow>
          (case props key of None \<Rightarrow> (VUndefined, st) | Some v \<Rightarrow> (v, st))
      | Some (ProxyObj target) \<Rightarrow>
          (if target < a then
             (case obj_get target key st of (value, st1) \<Rightarrow> wrap value st1)
           else (VUndefined, st)))"
  by pat_completeness auto
termination
  by (relation "measure (\<lambda>(a, key, st). a)") auto

text \<open>\<open>key in o\<close>. The handler has no \<open>has\<close> trap, so a proxy asks its target.\<close>

function obj_has :: "(nat \<rightharpoonup> heap_obj) \<Rightarrow> nat \<Rightarrow> string \<Rightarrow> bool" where
  "obj_has h a key =
     (case h a of
        None \<Rightarrow> False
      | Some (Obj c props) \<Rightarrow> key \<in> dom props
      | Some (ProxyObj target) \<Rightarrow> (if target < a then obj_has h target key else False))"
  by pat_completeness auto
termination
  by (relation "measure (\<lambda>(h, a, key). a)") auto

text \<open>\<open>renderer.schedule(rootNode)\<close>\<close>

definition schedule_root :: "dom \<Rightarrow> nat \<Rightarrow> reactive \<Rightarrow> reactive" where
  "schedule_root doc rootNode st = st\<lparr>sched := schedule doc rootNode (sched st)\<rparr>"

text \<open>
  \<open>o[key] = value\<close> and \<open>Reflect.set(o, key, value)\<close>. At a proxy this is the \<open>set\<close>
  trap: \<open>old\<close> is read from the target, a render is scheduled when \<open>old !== value\<close>, and
  the value is set on the target.
\<close>

function obj_set :: "dom \<Rightarrow> nat \<Rightarrow> nat \<Rightarrow> string \<Rightarrow> val \<Rightarrow> reactive \<Rightarrow> reactive" where
  "obj_set doc rootNode a key value st =
     (case heap st a of
        None \<Rightarrow> st
      | Some (Obj c props) \<Rightarrow> st\<lparr>heap := (heap st)(a \<mapsto> Obj c (props(key \<mapsto> value)))\<rparr>
      | Some (ProxyObj target) \<Rightarrow>
          (if target < a then
             (case obj_get target key st of
                (old, st1) \<Rightarrow>
                  obj_set doc rootNode target key value
                    (if \<not> strict_eq old value then schedule_root doc rootNode st1 else st1))
           else st))"
  by pat_completeness auto
termination
  by (relation "measure (\<lambda>(doc, rootNode, a, key, value, st). a)") auto

text \<open>
  \<open>delete o[key]\<close> and \<open>Reflect.deleteProperty(o, key)\<close>. At a proxy this is the
  \<open>deleteProperty\<close> trap: a render is scheduled when the key is in the target.
\<close>

function obj_delete :: "dom \<Rightarrow> nat \<Rightarrow> nat \<Rightarrow> string \<Rightarrow> reactive \<Rightarrow> reactive" where
  "obj_delete doc rootNode a key st =
     (case heap st a of
        None \<Rightarrow> st
      | Some (Obj c props) \<Rightarrow> st\<lparr>heap := (heap st)(a \<mapsto> Obj c (props(key := None)))\<rparr>
      | Some (ProxyObj target) \<Rightarrow>
          (if target < a then
             obj_delete doc rootNode target key
               (if obj_has (heap st) target key then schedule_root doc rootNode st else st)
           else st))"
  by pat_completeness auto
termination
  by (relation "measure (\<lambda>(doc, rootNode, a, key, st). a)") auto

text \<open>
  The heaps the program builds: every object in use has an address below the next free
  one; a proxy is younger than its target, which is in the heap; the cache maps a target
  to a proxy of that target; and an object stored in a property is in the heap.
\<close>

definition heap_ok :: "reactive \<Rightarrow> bool" where
  "heap_ok st =
     ((\<forall>a. a \<in> dom (heap st) \<longrightarrow> a < next_addr st)
      \<and> (\<forall>p t. heap st p = Some (ProxyObj t) \<longrightarrow> t < p \<and> t \<in> dom (heap st))
      \<and> (\<forall>a p. proxies st a = Some p \<longrightarrow> heap st p = Some (ProxyObj a))
      \<and> (\<forall>a c props k b. heap st a = Some (Obj c props) \<longrightarrow> props k = Some (VRef b) \<longrightarrow>
            b \<in> dom (heap st)))"

text \<open>A later state of the same heap: nothing that was there has changed.\<close>

definition extends :: "reactive \<Rightarrow> reactive \<Rightarrow> bool" where
  "extends st st' =
     ((\<forall>a. a \<in> dom (heap st) \<longrightarrow> heap st' a = heap st a)
      \<and> (\<forall>a p. proxies st a = Some p \<longrightarrow> proxies st' a = Some p))"

text \<open>
  The closure \<open>state\<close> as \<open>Phoebe\<close> builds it: \<open>wrap(initialValues)\<close>, with an empty
  cache and nothing pending, over the heap \<open>h\<close> of the caller's objects.
\<close>

definition Phoebe_state :: "(nat \<rightharpoonup> heap_obj) \<Rightarrow> nat \<Rightarrow> val \<Rightarrow> val \<times> reactive" where
  "Phoebe_state h n initialValues =
     wrap initialValues \<lparr>heap = h, proxies = Map.empty, next_addr = n, sched = idle\<rparr>"


section \<open>Example pages\<close>

text \<open>
  What \<open>render\<close> shows of a loop: each item element, in document order, with the values
  its loop context gives the names asked for.
\<close>

definition item_contexts :: "string list \<Rightarrow> 'w for_state \<Rightarrow> (nat \<times> val option list) list" where
  "item_contexts names st =
     map (\<lambda>el. (el, case loopContextValue (regs st el) of
                       None \<Rightarrow> []
                     | Some ctx \<Rightarrow> map ctx names))
       (children st)"

definition loop_view ::
  "string list \<Rightarrow> 'w for_state
     \<Rightarrow> (nat \<times> val option list) list \<times> (val \<times> nat) list option \<times> nat" where
  "loop_view names st = (item_contexts names st, keyElements st, nextEl st)"

text \<open>
  A page with \<open><phoebe-for var="item" in="items" key="item.id">\<close> around one \<open>li\<close>. The
  world is the value of \<open>items\<close> and the heap of the item objects. The host compiles the
  two expressions of the page; \<open>items\<close> is first the array \<open>VRef 1\<close>, which holds
  \<open>{id: 1, v: 'a'}\<close> and \<open>{id: 2, v: 'b'}\<close>, then the array \<open>VRef 2\<close>, which holds
  \<open>{id: 2, v: 'c'}\<close> and \<open>{id: 1, v: 'a'}\<close>.
\<close>

type_synonym keyed_world = "val \<times> (nat \<Rightarrow> string \<rightharpoonup> val)"

definition keyed_compile :: "keyed_world compiler" where
  "keyed_compile params body =
     (if body = get_body ''items'' then Inr (\<lambda>this sc v w. (Inr (fst w), w))
      else if body = get_body ''item.id'' then
        Inr (\<lambda>this sc v w.
          (case sc ''item'' of
             Some (VRef a) \<Rightarrow>
               (case snd w a ''id'' of Some k \<Rightarrow> (Inr k, w) | None \<Rightarrow> (Inr VUndefined, w))
           | _ \<Rightarrow> (Inl (VStr ''TypeError''), w)))
      else Inl (VStr ''SyntaxError''))"

definition keyed_heap :: "nat \<Rightarrow> string \<rightharpoonup> val" where
  "keyed_heap = (\<lambda>a. Map.empty)
     (11 := [''id'' \<mapsto> VNum 1, ''v'' \<mapsto> VStr ''a''],
      12 := [''id'' \<mapsto> VNum 2, ''v'' \<mapsto> VStr ''b''],
      22 := [''id'' \<mapsto> VNum 2, ''v'' \<mapsto> VStr ''c''],
      21 := [''id'' \<mapsto> VNum 1, ''v'' \<mapsto> VStr ''a''],
      32 := [''id'' \<mapsto> VNum 2, ''v'' \<mapsto> VStr ''c''])"

definition keyed_iterator :: "val \<Rightarrow> val list option" where
  "keyed_iterator v =
     (if v = VRef 1 then Some [VRef 11, VRef 12]
      else if v = VRef 2 then Some [VRef 22, VRef 21]
      else if v = VRef 3 then Some [VRef 32]
      else None)"

definition keyed_attrs :: attrs where
  "keyed_attrs = [(''var'', ''item''), (''in'', ''items''), (''key'', ''item.id'')]"

definition keyed_start :: "keyed_world for_state" where
  "keyed_start =
     \<lparr>isInitDone = False, authored = [ElementNode 5], templateContent = [],
      children = [], keyElements = None, regs = no_entries, nextEl = 100,
      jsenv = \<lparr>cache = Map.empty, console = [], world = (VRef 1, keyed_heap)\<rparr>\<rparr>"

text \<open>The page after its first render, and after \<open>items\<close> was replaced and it rendered
  again.\<close>

definition keyed_first :: "keyed_world for_state" where
  "keyed_first = snd (PhoebeFor_render keyed_compile keyed_iterator keyed_attrs 3 Map.empty
                        keyed_start)"

definition keyed_second :: "keyed_world for_state" where
  "keyed_second =
     snd (PhoebeFor_render keyed_compile keyed_iterator keyed_attrs 3 Map.empty
            (keyed_first\<lparr>jsenv := (jsenv keyed_first)\<lparr>world := (VRef 2, keyed_heap)\<rparr>\<rparr>))"

text \<open>
  The same page without the \<open>key\<close> attribute and with \<open>index="i"\<close>; \<open>items\<close> is first
  \<open>[1, 2, 3]\<close>, then \<open>[1, 2]\<close>. The world is the value of \<open>items\<close>.
\<close>

definition unkeyed_compile :: "val compiler" where
  "unkeyed_compile params body =
     (if body = get_body ''items'' then Inr (\<lambda>this sc v w. (Inr w, w))
      else Inl (VStr ''SyntaxError''))"

definition unkeyed_iterator :: "val \<Rightarrow> val list option" where
  "unkeyed_iterator v =
     (if v = VRef 1 then Some [VNum 1, VNum 2, VNum 3]
      else if v = VRef 2 then Some [VNum 1, VNum 2]
      else None)"

definition unkeyed_attrs :: attrs where
  "unkeyed_attrs = [(''var'', ''item''), (''in'', ''items''), (''index'', ''i'')]"

definition unkeyed_start :: "val for_state" where
  "unkeyed_start =
     \<lparr>isInitDone = False, authored = [ElementNode 5], templateContent = [],
      children = [], keyElements = None, regs = no_entries, nextEl = 100,
      jsenv = \<lparr>cache = Map.empty, console = [], world = VRef 1\<rparr>\<rparr>"

definition unkeyed_first :: "val for_state" where
  "unkeyed_first = snd (PhoebeFor_render unkeyed_compile unkeyed_iterator unkeyed_attrs 3
                          Map.empty unkeyed_start)"

definition unkeyed_second :: "val for_state" where
  "unkeyed_second =
     snd (PhoebeFor_render unkeyed_compile unkeyed_iterator unkeyed_attrs 3 Map.empty
            (unkeyed_first\<lparr>jsenv := (jsenv unkeyed_first)\<lparr>world := VRef 2\<rparr>\<rparr>))"


section \<open>Theorems: the expression evaluator\<close>

lemma try_cached_console:
  "try_cached compile k ps b this sc v env = (r, env') \<Longrightarrow> console env' = console env"
  by (auto simp: try_cached_def split: option.splits sum.splits prod.splits)

lemma js_get_outcome:
  "try_cached compile (''get:'' @ expr) [''state'', ''scope''] (get_body expr)
     this sc VUndefined env = (r, env') \<Longrightarrow>
   js_get compile expr sc this env =
     (r, case r of Inl e \<Rightarrow> log_error e ''js.get()'' expr env' | Inr v \<Rightarrow> env')"
  by (cases r) (simp_all add: js_get_def)

lemma js_set_outcome:
  "try_cached compile (''set:'' @ expr) [''state'', ''scope'', ''value''] (set_body expr)
     this sc value env = (r, env') \<Longrightarrow>
   js_set compile expr value sc this env =
     (Inr VUndefined, case r of Inl e \<Rightarrow> log_error e ''js.set()'' expr env' | Inr v \<Rightarrow> env')"
  by (cases r) (simp_all add: js_set_def)

lemma js_exec_outcome:
  "try_cached compile (''exec:'' @ expr) [''state'', ''scope''] (exec_body expr)
     this sc VUndefined env = (r, env') \<Longrightarrow>
   js_exec compile expr sc this env =
     (Inr VUndefined, case r of Inl e \<Rightarrow> log_error e ''js.exec()'' expr env' | Inr v \<Rightarrow> env')"
  by (cases r) (simp_all add: js_exec_def)

text \<open>
  C8. Whatever the expression and the scope: when the evaluation inside \<open>js.get\<close> throws
  \<open>e\<close>, the error is logged (one more console entry) and \<open>e\<close> reaches the caller; when
  the evaluation inside \<open>js.set\<close> or \<open>js.exec\<close> throws, the error is logged and the call
  returns normally, so the caller goes on. Without an exception nothing is logged.
\<close>

theorem js_error_semantics:
  "fst (js_get compile expr sc this env) =
     fst (try_cached compile (''get:'' @ expr) [''state'', ''scope''] (get_body expr)
            this sc VUndefined env)
   \<and> console (snd (js_get compile expr sc this env)) =
       console env @
       (case fst (try_cached compile (''get:'' @ expr) [''state'', ''scope''] (get_body expr)
                    this sc VUndefined env) of
          Inl e \<Rightarrow> [ConsoleError e ''js.get()'' expr]
        | Inr v \<Rightarrow> [])
   \<and> fst (js_set compile expr value sc this env) = Inr VUndefined
   \<and> console (snd (js_set compile expr value sc this env)) =
       console env @
       (case fst (try_cached compile (''set:'' @ expr) [''state'', ''scope'', ''value'']
                    (set_body expr) this sc value env) of
          Inl e \<Rightarrow> [ConsoleError e ''js.set()'' expr]
        | Inr v \<Rightarrow> [])
   \<and> fst (js_exec compile expr sc this env) = Inr VUndefined
   \<and> console (snd (js_exec compile expr sc this env)) =
       console env @
       (case fst (try_cached compile (''exec:'' @ expr) [''state'', ''scope''] (exec_body expr)
                    this sc VUndefined env) of
          Inl e \<Rightarrow> [ConsoleError e ''js.exec()'' expr]
        | Inr v \<Rightarrow> [])"
proof -
  obtain rg eg where g:
    "try_cached compile (''get:'' @ expr) [''state'', ''scope''] (get_body expr)
       this sc VUndefined env = (rg, eg)"
    by (cases "try_cached compile (''get:'' @ expr) [''state'', ''scope''] (get_body expr)
       this sc VUndefined env")
  obtain rs es where s:
    "try_cached compile (''set:'' @ expr) [''state'', ''scope'', ''value''] (set_body expr)
       this sc value env = (rs, es)"
    by (cases "try_cached compile (''set:'' @ expr) [''state'', ''scope'', ''value'']
       (set_body expr) this sc value env")
  obtain rx ex where x:
    "try_cached compile (''exec:'' @ expr) [''state'', ''scope''] (exec_body expr)
       this sc VUndefined env = (rx, ex)"
    by (cases "try_cached compile (''exec:'' @ expr) [''state'', ''scope''] (exec_body expr)
       this sc VUndefined env")
  have cg: "console eg = console env" using g by (rule try_cached_console)
  have cs: "console es = console env" using s by (rule try_cached_console)
  have cx: "console ex = console env" using x by (rule try_cached_console)
  have 1: "fst (js_get compile expr sc this env) = rg"
    by (simp add: js_get_outcome [OF g])
  have 2: "console (snd (js_get compile expr sc this env)) =
      console env @ (case rg of Inl e \<Rightarrow> [ConsoleError e ''js.get()'' expr] | Inr v \<Rightarrow> [])"
    by (cases rg) (simp_all add: js_get_outcome [OF g] log_error_def cg)
  have 3: "fst (js_set compile expr value sc this env) = Inr VUndefined"
    by (simp add: js_set_outcome [OF s])
  have 4: "console (snd (js_set compile expr value sc this env)) =
      console env @ (case rs of Inl e \<Rightarrow> [ConsoleError e ''js.set()'' expr] | Inr v \<Rightarrow> [])"
    by (cases rs) (simp_all add: js_set_outcome [OF s] log_error_def cs)
  have 5: "fst (js_exec compile expr sc this env) = Inr VUndefined"
    by (simp add: js_exec_outcome [OF x])
  have 6: "console (snd (js_exec compile expr sc this env)) =
      console env @ (case rx of Inl e \<Rightarrow> [ConsoleError e ''js.exec()'' expr] | Inr v \<Rightarrow> [])"
    by (cases rx) (simp_all add: js_exec_outcome [OF x] log_error_def cx)
  show ?thesis
    unfolding g s x fst_conv using 1 2 3 4 5 6 by blast
qed

section \<open>Theorems: the order of an element's directives\<close>

lemma sort_insert_class_cmp:
  "sort_insert class_cmp x (filter (\<lambda>a. a \<noteq> ''phoebe:class'') ys @
                            filter (\<lambda>a. a = ''phoebe:class'') ys) =
   filter (\<lambda>a. a \<noteq> ''phoebe:class'') (x # ys) @ filter (\<lambda>a. a = ''phoebe:class'') (x # ys)"
proof (cases "x = ''phoebe:class''")
  case False
  have "sort_insert class_cmp x zs = x # zs" for zs
    using False by (cases zs) (simp_all add: class_cmp_def)
  with False show ?thesis by simp
next
  case True
  have a: "sort_insert class_cmp x (us @ vs) = us @ sort_insert class_cmp x vs"
    if "\<forall>u \<in> set us. u \<noteq> ''phoebe:class''" for us vs
    using that True by (induction us) (simp_all add: class_cmp_def)
  have b: "sort_insert class_cmp x vs = x # vs"
    if "\<forall>v \<in> set vs. v = ''phoebe:class''" for vs
    using that True by (cases vs) (simp_all add: class_cmp_def)
  have "sort_insert class_cmp x (filter (\<lambda>a. a \<noteq> ''phoebe:class'') ys @
                                 filter (\<lambda>a. a = ''phoebe:class'') ys) =
        filter (\<lambda>a. a \<noteq> ''phoebe:class'') ys @
        sort_insert class_cmp x (filter (\<lambda>a. a = ''phoebe:class'') ys)"
    by (rule a) simp
  also have "\<dots> = filter (\<lambda>a. a \<noteq> ''phoebe:class'') ys @
                  x # filter (\<lambda>a. a = ''phoebe:class'') ys"
    by (subst b) simp_all
  finally show ?thesis
    using True by simp
qed

text \<open>
  What the sort of \<open>processElement\<close> does: every other name keeps its place, in
  declaration order, and \<open>phoebe:class\<close> is moved behind them all.
\<close>

lemma array_sort_class_cmp:
  "array_sort class_cmp xs =
   filter (\<lambda>a. a \<noteq> ''phoebe:class'') xs @ filter (\<lambda>a. a = ''phoebe:class'') xs"
  unfolding array_sort_def
proof (induction xs)
  case Nil
  show ?case by simp
next
  case (Cons x xs)
  show ?case
    using sort_insert_class_cmp [of x xs] Cons.IH by simp
qed

text \<open>
  C2, at an element that declares \<open>phoebe:class\<close> before \<open>phoebe-class:red\<close>: the
  render pass calls the individual class toggle first and the bulk class directive
  after it.
\<close>

theorem directive_calls_class_order:
  "directive_calls [(''phoebe:class'', ''theme''), (''phoebe-class:red'', ''neg'')] =
   [HandleClass ''red'' ''neg'', HandleAttribute ''class'' ''theme'']"
  by (simp add: directive_calls_def phoebeAttrs_def array_sort_class_cmp dispatch_def
      getAttribute_def startsWith_def)

section \<open>Theorems: the pending set\<close>

















section \<open>Theorems: scope resolution\<close>

lemma add_context_own: "add_context reg sc a = sc ++ own_context reg a"
  by (simp add: add_context_def own_context_def Let_def split: option.splits)

lemma foldl_add_context_snoc:
  "foldl (add_context reg) sc (ancs @ [a]) = foldl (add_context reg) sc ancs ++ own_context reg a"
  by (simp add: add_context_own)








text \<open>
  C1, at a loop item (element 12, \<open>x\<close> bound by the loop) that holds a \<open>phoebe-with\<close>
  (element 13, \<open>x\<close> bound again) with a descendant (element 14): the ancestors of 14 are
  collected nearest first and merged in that order, so the loop's value overwrites the
  scoped variable's, and the descendant sees the loop's value.
\<close>

theorem buildScope_shadowing_example:
  "fst (buildScope (Node 10 [Node 11 [Node 12 [Node 13 [Node 14 []]]]]) 10 14
         (no_entries
            (12 := empty_entry\<lparr>loopContextValue := Some [''x'' \<mapsto> VStr ''loop'']\<rparr>,
             13 := empty_entry\<lparr>withContextValue := Some [''x'' \<mapsto> VStr ''with'']\<rparr>)))
     ''x'' = Some (VStr ''loop'')
   \<and> contextAncestors
       (snd (buildScope (Node 10 [Node 11 [Node 12 [Node 13 [Node 14 []]]]]) 10 14
         (no_entries
            (12 := empty_entry\<lparr>loopContextValue := Some [''x'' \<mapsto> VStr ''loop'']\<rparr>,
             13 := empty_entry\<lparr>withContextValue := Some [''x'' \<mapsto> VStr ''with'']\<rparr>))) 14)
     = ContextEls [13, 12]"
  by (simp add: buildScope_def parent_chain_def no_entries_def empty_entry_def add_context_def)




section \<open>Theorems: the conditional element\<close>







section \<open>Theorems: the loop element\<close>













lemma unkeyed_second_view:
  "loop_view [''item'', ''i''] unkeyed_second =
     ([(100, [Some (VNum 1), Some (VNum 0)]), (101, [Some (VNum 2), Some (VNum 1)])], None, 103)"
  by code_simp


lemma key_entries_update [simp]:
  "key_entries (st\<lparr>children := cs, keyElements := Some m\<rparr>) = m"
  by (simp add: key_entries_def)

lemma prune_keyed_spec:
  "children (prune_keyed V es st) =
     filter (\<lambda>c. \<not> (\<exists>k. (k, c) \<in> set es \<and> k \<notin> set V)) (children st)
   \<and> key_entries (prune_keyed V es st) =
     filter (\<lambda>(k, e). k \<in> set V \<or> k \<notin> fst ` set es) (key_entries st)"
proof (induction es arbitrary: st)
  case Nil
  show ?case by simp
next
  case (Cons p es)
  obtain key el where p: "p = (key, el)" by (cases p)
  show ?case
  proof (cases "key \<in> set V")
    case True
    have a: "(\<lambda>c. \<not> (\<exists>k. (k, c) \<in> set ((key, el) # es) \<and> k \<notin> set V)) =
             (\<lambda>c. \<not> (\<exists>k. (k, c) \<in> set es \<and> k \<notin> set V))"
      using True by auto
    have b: "(\<lambda>(k, e). k \<in> set V \<or> k \<notin> fst ` set ((key, el) # es)) =
             (\<lambda>(k, e). k \<in> set V \<or> k \<notin> fst ` set es)"
      using True by auto
    show ?thesis
      unfolding p a b using True Cons.IH [of st] by simp
  next
    case False
    let ?st1 = "st\<lparr>children := remove_child (children st) el,
                   keyElements := Some (filter (\<lambda>(k, e). k \<noteq> key) (key_entries st))\<rparr>"
    have a: "filter (\<lambda>c. \<not> (\<exists>k. (k, c) \<in> set es \<and> k \<notin> set V)) (children ?st1) =
             filter (\<lambda>c. \<not> (\<exists>k. (k, c) \<in> set ((key, el) # es) \<and> k \<notin> set V)) (children st)"
      using False by (auto simp: remove_child_def intro!: filter_cong)
    have b: "filter (\<lambda>(k, e). k \<in> set V \<or> k \<notin> fst ` set es) (key_entries ?st1) =
             filter (\<lambda>(k, e). k \<in> set V \<or> k \<notin> fst ` set ((key, el) # es)) (key_entries st)"
      using False by (auto intro!: filter_cong)
    show ?thesis
      unfolding p using False Cons.IH [of ?st1] a b by simp
  qed
qed

lemma render_keyed_outcome:
  "render_keyed compile as sc this items st =
     (case keyed_loop compile (attr_text (getAttribute as ''key'')) (getAttribute as ''var'')
             (getAttribute as ''index'') sc this items 0
             (first_child (children st)) []
             (if keyElements st = None then st\<lparr>keyElements := Some []\<rparr> else st) of
        (Inl e, st2) \<Rightarrow> (Inl e, st2)
      | (Inr visitedKeys, st2) \<Rightarrow> (Inr (), prune_keyed visitedKeys (key_entries st2) st2))"
  by (simp add: render_keyed_def Let_def)

lemma render_keyed_prunes:
  assumes "fst (keyed_loop compile (attr_text (getAttribute as ''key'')) (getAttribute as ''var'')
             (getAttribute as ''index'') sc this items 0
             (first_child (children st)) []
             (if keyElements st = None then st\<lparr>keyElements := Some []\<rparr> else st)) = Inr V"
    and "(k, e) \<in> set (key_entries (snd (keyed_loop compile (attr_text (getAttribute as ''key''))
             (getAttribute as ''var'') (getAttribute as ''index'') sc this items 0
             (first_child (children st)) []
             (if keyElements st = None then st\<lparr>keyElements := Some []\<rparr> else st))))"
    and "k \<notin> set V"
  shows "fst (render_keyed compile as sc this items st) = Inr ()
         \<and> e \<notin> set (children (snd (render_keyed compile as sc this items st)))
         \<and> k \<notin> fst ` set (key_entries (snd (render_keyed compile as sc this items st)))
         \<and> fst ` set (key_entries (snd (render_keyed compile as sc this items st))) \<subseteq> set V"
proof -
  define res where "res = keyed_loop compile (attr_text (getAttribute as ''key''))
             (getAttribute as ''var'') (getAttribute as ''index'') sc this items 0
             (first_child (children st)) []
             (if keyElements st = None then st\<lparr>keyElements := Some []\<rparr> else st)"
  have f: "fst res = Inr V" and m: "(k, e) \<in> set (key_entries (snd res))"
    using assms(1,2) by (simp_all add: res_def)
  have r: "render_keyed compile as sc this items st =
        (Inr (), prune_keyed V (key_entries (snd res)) (snd res))"
    using f unfolding render_keyed_outcome res_def [symmetric]
    by (cases res) simp
  note sp = prune_keyed_spec [of V "key_entries (snd res)" "snd res"]
  have 1: "e \<notin> set (children (prune_keyed V (key_entries (snd res)) (snd res)))"
    using sp m assms(3) by auto
  have 2: "k \<notin> fst ` set (key_entries (prune_keyed V (key_entries (snd res)) (snd res)))"
    using sp m assms(3) by force
  have 3: "fst ` set (key_entries (prune_keyed V (key_entries (snd res)) (snd res))) \<subseteq> set V"
    using sp by force
  show ?thesis
    using 1 2 3 by (simp add: r)
qed

lemma nextElementSibling_mem: "nextElementSibling cs c = Some n \<Longrightarrow> n \<in> set cs"
proof -
  assume a: "nextElementSibling cs c = Some n"
  then obtain x rest where "dropWhile (\<lambda>k. k \<noteq> c) cs = x # n # rest"
    by (auto simp: nextElementSibling_def split: list.splits)
  then have "n \<in> set (dropWhile (\<lambda>k. k \<noteq> c) cs)" by simp
  then show ?thesis by (rule set_dropWhileD)
qed

lemma insertBefore_sibling:
  "\<exists>cs'. insertBefore cs node (case cur of None \<Rightarrow> None | Some c \<Rightarrow> nextElementSibling cs c) =
          Inr cs'"
proof (cases "case cur of None \<Rightarrow> None | Some c \<Rightarrow> nextElementSibling cs c")
  case None
  then show ?thesis by (simp add: insertBefore_def)
next
  case (Some r)
  then have "r \<in> set cs"
    by (auto split: option.splits dest: nextElementSibling_mem)
  with Some show ?thesis
    by (simp add: insertBefore_def split: option.splits)
qed

lemma place_item_returns: "\<exists>cur'. fst (place_item key ctx cur st) = Inr cur'"
proof (cases "map_of (key_entries st) key")
  case None
  let ?st2 = "st\<lparr>nextEl := Suc (nextEl st),
                 keyElements := Some (key_entries (st\<lparr>nextEl := Suc (nextEl st)\<rparr>) @
                                        [(key, nextEl st)])\<rparr>"
  from insertBefore_sibling [of "children st" "nextEl st" cur]
  obtain cs where "insertBefore (children st) (nextEl st)
      (case cur of None \<Rightarrow> None | Some c \<Rightarrow> nextElementSibling (children st) c) = Inr cs"
    by blast
  with None show ?thesis
    by (simp add: place_item_def Let_def cloneNode_def)
next
  case (Some keyEl)
  from insertBefore_sibling [of "children st" keyEl cur]
  obtain cs where "insertBefore (children st) keyEl
      (case cur of None \<Rightarrow> None | Some c \<Rightarrow> nextElementSibling (children st) c) = Inr cs"
    by blast
  with Some show ?thesis
    by (simp add: place_item_def Let_def)
qed

text \<open>
  The keyed loop leaves early only with an exception of \<open>js.get\<close>: the reference it
  hands to \<open>insertBefore\<close> is a sibling it has just read, so the DOM does not throw.
  When the key expression evaluates at every item, the loop runs through and \<open>render\<close>
  returns.
\<close>

lemma keyed_loop_returns:
  assumes "\<And>sc' env. \<exists>key. fst (js_get compile keyExpr sc' (VElement this) env) = Inr key"
  shows "\<exists>V. fst (keyed_loop compile keyExpr varName indexName sc this items index cur visited st)
           = Inr V"
proof (induction items arbitrary: index cur visited st)
  case Nil
  show ?case by simp
next
  case (Cons item rest)
  let ?ctx = "item_ctx varName indexName item index"
  obtain key env' where g:
    "js_get compile keyExpr (sc ++ ?ctx) (VElement this) (jsenv st) = (Inr key, env')"
    using assms [of "sc ++ ?ctx" "jsenv st"]
    by (cases "js_get compile keyExpr (sc ++ ?ctx) (VElement this) (jsenv st)") auto
  obtain cur' st1 where pl:
    "place_item key ?ctx cur (warn_key key visited (st\<lparr>jsenv := env'\<rparr>)) = (Inr cur', st1)"
    using place_item_returns [of key ?ctx cur "warn_key key visited (st\<lparr>jsenv := env'\<rparr>)"]
    by (cases "place_item key ?ctx cur (warn_key key visited (st\<lparr>jsenv := env'\<rparr>))") auto
  show ?case
    using Cons.IH by (simp add: g pl Let_def)
qed

lemma render_keyed_returns:
  assumes "\<And>sc' env. \<exists>key. fst (js_get compile (attr_text (getAttribute as ''key'')) sc'
                                    (VElement this) env) = Inr key"
  shows "fst (render_keyed compile as sc this items st) = Inr ()"
proof -
  let ?st1 = "if keyElements st = None then st\<lparr>keyElements := Some []\<rparr> else st"
  from keyed_loop_returns [of compile "attr_text (getAttribute as ''key'')" this, OF assms]
  obtain V where "fst (keyed_loop compile (attr_text (getAttribute as ''key''))
             (getAttribute as ''var'') (getAttribute as ''index'') sc this items 0
             (first_child (children st)) [] ?st1) = Inr V"
    by blast
  then show ?thesis
    unfolding render_keyed_outcome
    by (cases "keyed_loop compile (attr_text (getAttribute as ''key''))
             (getAttribute as ''var'') (getAttribute as ''index'') sc this items 0
             (first_child (children st)) [] ?st1") simp
qed

text \<open>The keyed example page, through the whole of \<open>render\<close>, twice.\<close>

lemma keyed_first_view:
  "loop_view [''item''] keyed_first =
     ([(100, [Some (VRef 11)]), (101, [Some (VRef 12)])],
      Some [(VNum 1, 100), (VNum 2, 101)], 102)"
  by code_simp

lemma keyed_second_view:
  "loop_view [''item''] keyed_second =
     ([(101, [Some (VRef 22)]), (100, [Some (VRef 21)])],
      Some [(VNum 1, 100), (VNum 2, 101)], 102)"
  by code_simp

text \<open>
  C6. The page of the example renders \<open>[{id: 1, v: 'a'}, {id: 2, v: 'b'}]\<close> into the
  elements 100 and 101, indexed under the keys 1 and 2. After the render of
  \<open>[{id: 2, v: 'c'}, {id: 1, v: 'a'}]\<close> the item elements are 101 and 100, in that order;
  no element was created (the next identity is still 102) and the index is unchanged;
  element 101 carries the item \<open>VRef 22\<close>, whose \<open>v\<close> is \<open>'c'\<close>. And whatever the page:
  when the keyed loop has run through the items, every entry of the index whose key was
  not visited is gone from the index and its element from the children when \<open>render\<close>
  returns, and only visited keys are left in the index.
\<close>

theorem keyed_render_reconciles:
  "loop_view [''item''] keyed_first =
     ([(100, [Some (VRef 11)]), (101, [Some (VRef 12)])],
      Some [(VNum 1, 100), (VNum 2, 101)], 102)
   \<and> loop_view [''item''] keyed_second =
     ([(101, [Some (VRef 22)]), (100, [Some (VRef 21)])],
      Some [(VNum 1, 100), (VNum 2, 101)], 102)
   \<and> keyed_heap 22 ''v'' = Some (VStr ''c'')
   \<and> (fst (keyed_loop compile (attr_text (getAttribute as ''key'')) (getAttribute as ''var'')
             (getAttribute as ''index'') sc this items 0
             (first_child (children st)) []
             (if keyElements st = None then st\<lparr>keyElements := Some []\<rparr> else st)) = Inr V
       \<longrightarrow> (k, e) \<in> set (key_entries (snd (keyed_loop compile (attr_text (getAttribute as ''key''))
             (getAttribute as ''var'') (getAttribute as ''index'') sc this items 0
             (first_child (children st)) []
             (if keyElements st = None then st\<lparr>keyElements := Some []\<rparr> else st))))
       \<longrightarrow> k \<notin> set V
       \<longrightarrow> fst (render_keyed compile as sc this items st) = Inr ()
           \<and> e \<notin> set (children (snd (render_keyed compile as sc this items st)))
           \<and> k \<notin> fst ` set (key_entries (snd (render_keyed compile as sc this items st)))
           \<and> fst ` set (key_entries (snd (render_keyed compile as sc this items st))) \<subseteq> set V)"
proof -
  have "keyed_heap 22 ''v'' = Some (VStr ''c'')"
    by (simp add: keyed_heap_def)
  then show ?thesis
    using keyed_first_view keyed_second_view render_keyed_prunes [of compile as sc this items st V k e]
    by blast
qed

text \<open>A third render of the page, with only \<open>{id: 2, v: 'c'}\<close> left: element 100, indexed
  under the key 1, is removed.\<close>

lemma keyed_third_loop:
  "fst (keyed_loop keyed_compile (attr_text (getAttribute keyed_attrs ''key''))
          (getAttribute keyed_attrs ''var'') (getAttribute keyed_attrs ''index'') Map.empty 3
          [VRef 32] 0 (first_child (children keyed_second)) []
          (if keyElements keyed_second = None then keyed_second\<lparr>keyElements := Some []\<rparr>
           else keyed_second)) = Inr [VNum 2]
   \<and> (VNum 1, 100) \<in> set (key_entries (snd (keyed_loop keyed_compile
          (attr_text (getAttribute keyed_attrs ''key''))
          (getAttribute keyed_attrs ''var'') (getAttribute keyed_attrs ''index'') Map.empty 3
          [VRef 32] 0 (first_child (children keyed_second)) []
          (if keyElements keyed_second = None then keyed_second\<lparr>keyElements := Some []\<rparr>
           else keyed_second))))"
  by code_simp

theorem keyed_render_reconciles_witness:
  "fst (render_keyed keyed_compile keyed_attrs Map.empty 3 [VRef 32] keyed_second) = Inr ()
   \<and> 100 \<notin> set (children (snd (render_keyed keyed_compile keyed_attrs Map.empty 3 [VRef 32]
                                 keyed_second)))
   \<and> VNum 1 \<notin> fst ` set (key_entries (snd (render_keyed keyed_compile keyed_attrs Map.empty 3
                                             [VRef 32] keyed_second)))"
proof -
  have v: "VNum 1 \<notin> set [VNum 2]" by simp
  show ?thesis
    using keyed_render_reconciles
      [of keyed_compile keyed_attrs Map.empty 3 "[VRef 32]" keyed_second "[VNum 2]"
          "VNum 1" 100]
      keyed_third_loop v
    by blast
qed

section \<open>Theorems: the reactive state\<close>

declare is_object.simps [simp del] obj_get.simps [simp del] obj_has.simps [simp del]
  obj_set.simps [simp del] obj_delete.simps [simp del]

lemma extends_refl: "extends st st"
  by (simp add: extends_def)

lemma extends_trans: "extends a b \<Longrightarrow> extends b c \<Longrightarrow> extends a c"
  unfolding extends_def by (metis domI domIff)

lemma is_object_extends:
  assumes "heap_ok st" and "extends st st'" and "a \<in> dom (heap st)"
  shows "is_object (heap st') a = is_object (heap st) a"
  using assms
proof (induction a rule: less_induct)
  case (less a)
  have same: "heap st' a = heap st a"
    using less.prems by (simp add: extends_def)
  show ?case
  proof (cases "heap st a")
    case None
    with less.prems show ?thesis by auto
  next
    case (Some o1)
    show ?thesis
    proof (cases o1)
      case (Obj c props)
      with Some same show ?thesis by (simp add: is_object.simps)
    next
      case (ProxyObj t)
      with Some less.prems(1) have t: "t < a" "t \<in> dom (heap st)"
        by (auto simp: heap_ok_def)
      then have "is_object (heap st') t = is_object (heap st) t"
        using less.IH less.prems by blast
      with Some same ProxyObj t show ?thesis
        by (simp add: is_object.simps [of _ a])
    qed
  qed
qed

lemma wrap_cases:
  "wrap v st = (r, st1) \<Longrightarrow>
   (st1 = st \<and> ((r = v \<and> \<not> (\<exists>a. v = VRef a \<and> is_object (heap st) a))
              \<or> (\<exists>a p. v = VRef a \<and> is_object (heap st) a \<and> proxies st a = Some p \<and> r = VRef p)))
   \<or> (\<exists>a. v = VRef a \<and> is_object (heap st) a \<and> proxies st a = None \<and> r = VRef (next_addr st)
        \<and> st1 = st\<lparr>heap := (heap st)(next_addr st \<mapsto> ProxyObj a),
                    proxies := (proxies st)(a \<mapsto> next_addr st),
                    next_addr := Suc (next_addr st)\<rparr>)"
  by (auto simp: wrap_def split: val.splits if_splits option.splits)

lemma is_object_dom: "is_object h a \<Longrightarrow> a \<in> dom h"
  by (cases "h a") (auto simp: is_object.simps [of h a])

lemma wrap_ok:
  assumes ok: "heap_ok st" and w: "wrap v st = (r, st1)"
  shows "heap_ok st1 \<and> extends st st1"
proof -
  from wrap_cases [OF w] show ?thesis
  proof (elim disjE conjE exE)
    assume "st1 = st"
    then show ?thesis using ok by (simp add: extends_refl)
  next
    assume "st1 = st"
    then show ?thesis using ok by (simp add: extends_refl)
  next
    fix a
    assume a: "v = VRef a" "is_object (heap st) a" "proxies st a = None"
      and st1: "st1 = st\<lparr>heap := (heap st)(next_addr st \<mapsto> ProxyObj a),
                    proxies := (proxies st)(a \<mapsto> next_addr st),
                    next_addr := Suc (next_addr st)\<rparr>"
    have ad: "a \<in> dom (heap st)" using a(2) by (rule is_object_dom)
    then have lt: "a < next_addr st" using ok by (simp add: heap_ok_def)
    have fresh: "next_addr st \<notin> dom (heap st)"
      using ok by (auto simp: heap_ok_def)
    have nocache: "proxies st b \<noteq> Some (next_addr st)" for b
      using ok fresh by (auto simp: heap_ok_def)
    have e: "extends st st1"
      using fresh a(3) by (auto simp: extends_def st1)
    have 1: "\<forall>x. x \<in> dom (heap st1) \<longrightarrow> x < next_addr st1"
      using ok by (auto simp: heap_ok_def st1 less_Suc_eq)
    have 2: "\<forall>p t. heap st1 p = Some (ProxyObj t) \<longrightarrow> t < p \<and> t \<in> dom (heap st1)"
      using ok lt ad by (auto simp: heap_ok_def st1)
    have 3: "\<forall>x p. proxies st1 x = Some p \<longrightarrow> heap st1 p = Some (ProxyObj x)"
      using ok nocache by (auto simp: heap_ok_def st1)
    have 4: "\<forall>x c props k b. heap st1 x = Some (Obj c props) \<longrightarrow> props k = Some (VRef b) \<longrightarrow>
            b \<in> dom (heap st1)"
      using ok by (auto simp: heap_ok_def st1; blast)
    show ?thesis
      using 1 2 3 4 e unfolding heap_ok_def by blast
  qed
qed


lemma wrap_result_allocated:
  assumes ok: "heap_ok st" and w: "wrap v st = (r, st1)"
    and al: "\<forall>a. v = VRef a \<longrightarrow> a \<in> dom (heap st)"
  shows "\<forall>b. r = VRef b \<longrightarrow> b \<in> dom (heap st1)"
  using wrap_cases [OF w] ok al
  by (auto simp: heap_ok_def)

lemma wrap_stable:
  assumes ok: "heap_ok st" and w: "wrap v st = (r, st1)"
    and al: "\<forall>a. v = VRef a \<longrightarrow> a \<in> dom (heap st)"
    and ok': "heap_ok st'" and ex: "extends st1 st'"
  shows "wrap v st' = (r, st')"
proof -
  from wrap_ok [OF ok w] have ok1: "heap_ok st1" and ex1: "extends st st1" by simp_all
  have ex2: "extends st st'" using ex1 ex by (rule extends_trans)
  have obj: "is_object (heap st') a = is_object (heap st) a" if "v = VRef a" for a
    using is_object_extends [OF ok ex2] al that by blast
  from wrap_cases [OF w] show ?thesis
  proof (elim disjE conjE exE)
    assume "r = v" "\<not> (\<exists>a. v = VRef a \<and> is_object (heap st) a)"
    then show ?thesis
      using obj by (auto simp: wrap_def split: val.splits)
  next
    fix a p
    assume a: "v = VRef a" "is_object (heap st) a" "proxies st a = Some p" "r = VRef p"
    then have "proxies st' a = Some p" using ex2 by (simp add: extends_def)
    with a obj show ?thesis by (simp add: wrap_def)
  next
    fix a
    assume a: "v = VRef a" "is_object (heap st) a" "r = VRef (next_addr st)"
      and st1: "st1 = st\<lparr>heap := (heap st)(next_addr st \<mapsto> ProxyObj a),
                    proxies := (proxies st)(a \<mapsto> next_addr st),
                    next_addr := Suc (next_addr st)\<rparr>"
    have "proxies st1 a = Some (next_addr st)" by (simp add: st1)
    then have "proxies st' a = Some (next_addr st)" using ex by (simp add: extends_def)
    with a obj show ?thesis by (simp add: wrap_def)
  qed
qed

lemma obj_get_stable:
  assumes "heap_ok st" and "a \<in> dom (heap st)" and "obj_get a key st = (v, st1)"
  shows "heap_ok st1 \<and> extends st st1
         \<and> (\<forall>b. v = VRef b \<longrightarrow> b \<in> dom (heap st1))
         \<and> (\<forall>st'. heap_ok st' \<longrightarrow> extends st1 st' \<longrightarrow> obj_get a key st' = (v, st'))"
  using assms
proof (induction a key st arbitrary: v st1 rule: obj_get.induct)
  case (1 a key st)
  from "1.prems"(2) obtain o1 where h: "heap st a = Some o1" by auto
  show ?case
  proof (cases o1)
    case (Obj c props)
    have r: "v = (case props key of None \<Rightarrow> VUndefined | Some x \<Rightarrow> x)" "st1 = st"
      using "1.prems"(3) h Obj by (auto simp: obj_get.simps [of a] split: option.splits)
    have al: "\<forall>b. v = VRef b \<longrightarrow> b \<in> dom (heap st1)"
    proof (intro allI impI)
      fix b assume "v = VRef b"
      with r(1) have "props key = Some (VRef b)" by (auto split: option.splits)
      with "1.prems"(1) h Obj have "b \<in> dom (heap st)"
        unfolding heap_ok_def by blast
      with r(2) show "b \<in> dom (heap st1)" by simp
    qed
    have st: "obj_get a key st' = (v, st')" if "heap_ok st'" "extends st1 st'" for st'
    proof -
      have "heap st' a = Some (Obj c props)"
        using that(2) h Obj r(2) by (auto simp: extends_def)
      then show ?thesis
        using r(1) by (auto simp: obj_get.simps [of a] split: option.splits)
    qed
    show ?thesis
      using "1.prems"(1) r(2) al st by (simp add: extends_refl)
  next
    case (ProxyObj t)
    have t: "t < a" "t \<in> dom (heap st)"
      using "1.prems"(1) h ProxyObj by (auto simp: heap_ok_def)
    obtain raw s1 where g: "obj_get t key st = (raw, s1)"
      by (cases "obj_get t key st")
    have w: "wrap raw s1 = (v, st1)"
      using "1.prems"(3) h ProxyObj t g by (simp add: obj_get.simps [of a])
    note ih = "1.IH" [OF h ProxyObj t(1) "1.prems"(1) t(2) g]
    from ih have ok1: "heap_ok s1" and ex1: "extends st s1"
      and al1: "\<forall>b. raw = VRef b \<longrightarrow> b \<in> dom (heap s1)"
      and st1: "\<And>st'. heap_ok st' \<Longrightarrow> extends s1 st' \<Longrightarrow> obj_get t key st' = (raw, st')"
      by blast+
    from wrap_ok [OF ok1 w] have ok2: "heap_ok st1" and ex2: "extends s1 st1" by simp_all
    have ex: "extends st st1" using ex1 ex2 by (rule extends_trans)
    have al: "\<forall>b. v = VRef b \<longrightarrow> b \<in> dom (heap st1)"
      using ok1 w al1 by (rule wrap_result_allocated)
    have stab: "obj_get a key st' = (v, st')" if ok': "heap_ok st'" and ex': "extends st1 st'" for st'
    proof -
      have "extends st st'" using ex ex' by (rule extends_trans)
      then have ha: "heap st' a = Some (ProxyObj t)"
        using h ProxyObj by (auto simp: extends_def)
      have "extends s1 st'" using ex2 ex' by (rule extends_trans)
      with ok' have gt: "obj_get t key st' = (raw, st')" by (rule st1)
      have "wrap raw st' = (v, st')"
        using ok1 w al1 ok' ex' by (rule wrap_stable)
      with ha t(1) gt show ?thesis by (simp add: obj_get.simps [of a])
    qed
    show ?thesis
      using ok2 ex al stab by blast
  qed
qed

text \<open>Writing, deleting and reading through any object keep the heap as the program builds it.\<close>

lemma heap_ok_sched [simp]: "heap_ok (schedule_root doc rootNode st) = heap_ok st"
  by (simp add: heap_ok_def schedule_root_def)

lemma heap_schedule_root [simp]: "heap (schedule_root doc rootNode st) = heap st"
  by (simp add: schedule_root_def)

lemma heap_ok_store:
  assumes ok: "heap_ok st" and h: "heap st a = Some (Obj c props)"
    and al: "\<forall>k b. props' k = Some (VRef b) \<longrightarrow> b \<in> dom (heap st)"
  shows "heap_ok (st\<lparr>heap := (heap st)(a \<mapsto> Obj c props')\<rparr>)"
proof -
  let ?st = "st\<lparr>heap := (heap st)(a \<mapsto> Obj c props')\<rparr>"
  have d: "dom (heap ?st) = dom (heap st)" using h by auto
  have 1: "\<forall>x. x \<in> dom (heap ?st) \<longrightarrow> x < next_addr ?st"
    using ok unfolding d by (simp add: heap_ok_def)
  have 2: "\<forall>p t. heap ?st p = Some (ProxyObj t) \<longrightarrow> t < p \<and> t \<in> dom (heap ?st)"
    unfolding d using ok by (auto simp: heap_ok_def split: if_splits)
  have 3: "\<forall>x p. proxies ?st x = Some p \<longrightarrow> heap ?st p = Some (ProxyObj x)"
    using ok h by (auto simp: heap_ok_def)
  have 4: "\<forall>x c' ps k b. heap ?st x = Some (Obj c' ps) \<longrightarrow> ps k = Some (VRef b) \<longrightarrow>
             b \<in> dom (heap ?st)"
    unfolding d using ok al by (auto simp: heap_ok_def split: if_splits)
  show ?thesis unfolding heap_ok_def using 1 2 3 4 by blast
qed


lemma proxy_set_trap:
  assumes "heap_ok st" and "heap st p = Some (ProxyObj t)" and "obj_get t key st = (old, st1)"
  shows "obj_set doc rootNode p key v st =
           obj_set doc rootNode t key v
             (if \<not> strict_eq old v then schedule_root doc rootNode st1 else st1)"
proof -
  have "t < p" using assms(1,2) by (auto simp: heap_ok_def)
  then show ?thesis
    using assms(2,3) by (simp add: obj_set.simps [of doc rootNode p])
qed

lemma proxy_delete_trap:
  assumes "heap_ok st" and "heap st p = Some (ProxyObj t)"
  shows "obj_delete doc rootNode p key st =
           obj_delete doc rootNode t key
             (if obj_has (heap st) t key then schedule_root doc rootNode st else st)"
proof -
  have "t < p" using assms(1,2) by (auto simp: heap_ok_def)
  then show ?thesis
    using assms(2) by (simp add: obj_delete.simps [of doc rootNode p])
qed

lemma obj_set_ok:
  assumes "heap_ok st" and "a \<in> dom (heap st)"
    and "\<forall>b. v = VRef b \<longrightarrow> b \<in> dom (heap st)"
  shows "heap_ok (obj_set doc rootNode a key v st)"
  using assms
proof (induction doc rootNode a key v st rule: obj_set.induct)
  case (1 doc rootNode a key v st)
  from "1.prems"(2) obtain o1 where h: "heap st a = Some o1" by auto
  show ?case
  proof (cases o1)
    case (Obj c props)
    have "heap_ok (st\<lparr>heap := (heap st)(a \<mapsto> Obj c (props(key \<mapsto> v)))\<rparr>)"
    proof (rule heap_ok_store [OF "1.prems"(1) h [unfolded Obj]], intro allI impI)
      fix k b assume s: "(props(key \<mapsto> v)) k = Some (VRef b)"
      show "b \<in> dom (heap st)"
      proof (cases "k = key")
        case True
        with s "1.prems"(3) show ?thesis by simp
      next
        case False
        with s have "props k = Some (VRef b)" by simp
        with "1.prems"(1) h Obj show ?thesis unfolding heap_ok_def by blast
      qed
    qed
    with h Obj show ?thesis by (simp add: obj_set.simps [of doc rootNode a])
  next
    case (ProxyObj t)
    have t: "t < a" "t \<in> dom (heap st)"
      using "1.prems"(1) h ProxyObj by (auto simp: heap_ok_def)
    obtain old s1 where g: "obj_get t key st = (old, s1)"
      by (cases "obj_get t key st")
    let ?s = "if \<not> strict_eq old v then schedule_root doc rootNode s1 else s1"
    from obj_get_stable [OF "1.prems"(1) t(2) g]
    have ok1: "heap_ok s1" and ex: "extends st s1" by simp_all
    have ok: "heap_ok ?s" using ok1 by simp
    have hs: "heap ?s = heap s1" by simp
    have td: "t \<in> dom (heap ?s)"
      using t(2) ex unfolding hs by (auto simp: extends_def)
    have al: "\<forall>b. v = VRef b \<longrightarrow> b \<in> dom (heap ?s)"
      using "1.prems"(3) ex unfolding hs by (auto simp: extends_def)
    have "heap_ok (obj_set doc rootNode t key v ?s)"
      using "1.IH" [OF h ProxyObj t(1) g [symmetric] ok td al] .
    then show ?thesis
      using h ProxyObj t(1) g by (simp add: obj_set.simps [of doc rootNode a])
  qed
qed

lemma obj_delete_ok:
  assumes "heap_ok st" and "a \<in> dom (heap st)"
  shows "heap_ok (obj_delete doc rootNode a key st)"
  using assms
proof (induction doc rootNode a key st rule: obj_delete.induct)
  case (1 doc rootNode a key st)
  from "1.prems"(2) obtain o1 where h: "heap st a = Some o1" by auto
  show ?case
  proof (cases o1)
    case (Obj c props)
    have "heap_ok (st\<lparr>heap := (heap st)(a \<mapsto> Obj c (props(key := None)))\<rparr>)"
    proof (rule heap_ok_store [OF "1.prems"(1) h [unfolded Obj]], intro allI impI)
      fix k b assume s: "(props(key := None)) k = Some (VRef b)"
      then have "props k = Some (VRef b)" by (simp split: if_splits)
      with "1.prems"(1) h Obj show "b \<in> dom (heap st)" unfolding heap_ok_def by blast
    qed
    with h Obj show ?thesis by (simp add: obj_delete.simps [of doc rootNode a])
  next
    case (ProxyObj t)
    have t: "t < a" "t \<in> dom (heap st)"
      using "1.prems"(1) h ProxyObj by (auto simp: heap_ok_def)
    let ?s = "if obj_has (heap st) t key then schedule_root doc rootNode st else st"
    have ok: "heap_ok ?s" using "1.prems"(1) by simp
    have td: "t \<in> dom (heap ?s)" using t(2) by simp
    have "heap_ok (obj_delete doc rootNode t key ?s)"
      using "1.IH" [OF h ProxyObj t(1) ok td] .
    then show ?thesis
      using h ProxyObj t(1) by (simp add: obj_delete.simps [of doc rootNode a])
  qed
qed

lemma obj_get_ok:
  "heap_ok st \<Longrightarrow> a \<in> dom (heap st) \<Longrightarrow> heap_ok (snd (obj_get a key st))"
  using obj_get_stable [of st a key "fst (obj_get a key st)" "snd (obj_get a key st)"]
  by simp

text \<open>The state \<open>Phoebe\<close> starts from, \<open>wrap(initialValues)\<close> over the caller's objects.\<close>

lemma Phoebe_state_ok:
  assumes "\<forall>a. a \<in> dom h \<longrightarrow> a < n"
    and "\<forall>a t. h a \<noteq> Some (ProxyObj t)"
    and "\<forall>a c props k b. h a = Some (Obj c props) \<longrightarrow> props k = Some (VRef b) \<longrightarrow> b \<in> dom h"
  shows "heap_ok (snd (Phoebe_state h n initialValues))"
proof -
  have "heap_ok \<lparr>heap = h, proxies = Map.empty, next_addr = n, sched = idle\<rparr>"
    using assms unfolding heap_ok_def by simp
  then show ?thesis
    using wrap_ok [of _ initialValues "fst (Phoebe_state h n initialValues)"
                     "snd (Phoebe_state h n initialValues)"]
    by (simp add: Phoebe_state_def)
qed











end
